theory Spec2Isabelle
  imports Complex_Main "HOL-Library.Sublist"
begin

section \<open>Python strings\<close>

text \<open>
  A Python \<open>str\<close> is a sequence of code points. The model uses \<open>string\<close>, whose
  characters are the 256 code points below U+0100; \<open>length\<close> counts code points, as
  Python's \<open>len\<close> does. The predicates below are Python's \<open>str.isspace\<close>,
  \<open>str.isdigit\<close> and \<open>str.lower\<close> restricted to that range.
\<close>

definition isspace :: "char \<Rightarrow> bool" where
  "isspace c = (let n = (of_char c :: nat) in
     (9 \<le> n \<and> n \<le> 13) \<or> (28 \<le> n \<and> n \<le> 32) \<or> n = 133 \<or> n = 160)"

definition isdigit :: "char \<Rightarrow> bool" where
  "isdigit c = (let n = (of_char c :: nat) in 48 \<le> n \<and> n \<le> 57)"

definition lower_char :: "char \<Rightarrow> char" where
  "lower_char c = (let n = (of_char c :: nat) in
     if (65 \<le> n \<and> n \<le> 90) \<or> (192 \<le> n \<and> n \<le> 222 \<and> n \<noteq> 215)
     then char_of (n + 32) else c)"

definition lower :: "string \<Rightarrow> string" where
  "lower s = map lower_char s"

text \<open>\<open>s.strip()\<close>: leading and trailing whitespace removed.\<close>

definition strip :: "string \<Rightarrow> string" where
  "strip s = rev (dropWhile isspace (rev (dropWhile isspace s)))"

text \<open>\<open>s.split()\<close>: the maximal runs of non-whitespace characters, in order.\<close>

function py_split :: "string \<Rightarrow> string list" where
  "py_split [] = []"
| "py_split (c # cs) =
     (if isspace c then py_split cs
      else takeWhile (\<lambda>x. \<not> isspace x) (c # cs) # py_split (dropWhile (\<lambda>x. \<not> isspace x) cs))"
  by pat_completeness auto
termination
  by (relation "measure length") (auto simp: length_dropWhile_le less_Suc_eq_le)

text \<open>
  \<open>s.find(sub)\<close>: the offset of the first occurrence of \<open>sub\<close> in \<open>s\<close>, or \<open>-1\<close>.
  \<open>sub in s\<close> is the same search, asked only whether it succeeds.
\<close>

fun find_first :: "string \<Rightarrow> string \<Rightarrow> nat option" where
  "find_first [] sub = (if sub = [] then Some 0 else None)"
| "find_first (c # cs) sub =
     (if prefix sub (c # cs) then Some 0 else map_option Suc (find_first cs sub))"

definition find :: "string \<Rightarrow> string \<Rightarrow> int" where
  "find s sub = (case find_first s sub of None \<Rightarrow> - 1 | Some i \<Rightarrow> int i)"

definition str_in :: "string \<Rightarrow> string \<Rightarrow> bool" where
  "str_in sub s = (find_first s sub \<noteq> None)"

text \<open>
  Slices \<open>xs[:m]\<close> and \<open>xs[i:j]\<close>: a negative bound counts from the end, and every
  bound is clamped to the list.
\<close>

definition py_bound :: "nat \<Rightarrow> int \<Rightarrow> nat" where
  "py_bound n i = (if i < 0 then nat (int n + i) else min n (nat i))"

definition py_take :: "int \<Rightarrow> 'a list \<Rightarrow> 'a list" where
  "py_take m xs = take (py_bound (length xs) m) xs"

definition py_slice :: "'a list \<Rightarrow> int \<Rightarrow> int \<Rightarrow> 'a list" where
  "py_slice xs i j = drop (py_bound (length xs) i) (take (py_bound (length xs) j) xs)"

section \<open>Errors and configuration\<close>

datatype error = ValueError string | IndexError string

definition SEMANTIC_WEIGHT :: real where "SEMANTIC_WEIGHT = 7 / 10"
definition BM25_WEIGHT :: real where "BM25_WEIGHT = 3 / 10"

section \<open>Definition patterns\<close>

definition patterns :: "string \<Rightarrow> string list" where
  "patterns query_lower =
     [query_lower @ '' is'',
      ''definition of '' @ query_lower,
      ''what is '' @ query_lower,
      query_lower @ '' refers to'',
      query_lower @ '' means'',
      query_lower @ '':'']"

definition is_definition_chunk :: "string \<Rightarrow> string \<Rightarrow> bool" where
  "is_definition_chunk text query =
     (let text_lower = lower text; query_lower = lower query
      in list_ex (\<lambda>pattern. str_in pattern text_lower) (patterns query_lower))"

section \<open>The index and hybrid search\<close>

text \<open>
  The embedding model and the BM25 scorer are external. \<open>encode\<close> stands for
  \<open>model.encode\<close> (a batch of texts to a matrix, one row per text) and the field
  \<open>bm25\<close> for the \<open>get_scores\<close> method of the BM25 object built over the chunks.
  Floating-point numbers are idealised as reals.
\<close>

record index =
  embeddings :: "real list list"
  bm25 :: "string list \<Rightarrow> real list"
  chunks :: "string list"

text \<open>\<open>np.linalg.norm\<close> of a whole matrix, and of one row.\<close>

definition norm_all :: "real list list \<Rightarrow> real" where
  "norm_all m = sqrt (sum_list (map (\<lambda>x. x * x) (concat m)))"


definition eps :: real where "eps = 1 / 10 ^ 10"


definition dot :: "real list \<Rightarrow> real list \<Rightarrow> real" where
  "dot a b = sum_list (map2 (*) a b)"

text \<open>
  \<open>a @ q.T\<close> for matrices given by their rows: entry \<open>(i, j)\<close> is the dot product of row
  \<open>i\<close> of \<open>a\<close> with row \<open>j\<close> of \<open>q\<close>; the row lengths must agree.
\<close>

definition matmul_T :: "real list list \<Rightarrow> real list list \<Rightarrow> error + real list list" where
  "matmul_T a q =
     (if list_all (\<lambda>row. list_all (\<lambda>v. length row = length v) q) a
      then Inr (map (\<lambda>row. map (dot row) q) a)
      else Inl (ValueError ''matmul: mismatch in core dimension''))"

text \<open>\<open>scores.max()\<close> raises on an array of size zero.\<close>

definition np_max :: "real list \<Rightarrow> error + real" where
  "np_max xs =
     (if xs = []
      then Inl (ValueError ''zero-size array to reduction operation maximum which has no identity'')
      else Inr (Max (set xs)))"

text \<open>Elementwise sum of two one-dimensional arrays, with numpy's broadcasting.\<close>

definition np_add :: "real list \<Rightarrow> real list \<Rightarrow> error + real list" where
  "np_add a b =
     (if length a = length b then Inr (map2 (+) a b)
      else if length a = 1 then Inr (map (\<lambda>y. hd a + y) b)
      else if length b = 1 then Inr (map (\<lambda>x. x + hd b) a)
      else Inl (ValueError ''operands could not be broadcast together''))"

text \<open>
  \<open>np.argsort\<close>: the indices in ascending order of their value. Equal values are
  kept in index order here; numpy leaves their order open.
\<close>

definition argsort :: "real list \<Rightarrow> nat list" where
  "argsort xs = sort_key (\<lambda>i. xs ! i) [0..<length xs]"

text \<open>The loop over the candidate pool, \<open>results\<close> being the list built so far.\<close>

fun rank_loop ::
  "string \<Rightarrow> string list \<Rightarrow> real list \<Rightarrow> (string \<times> real) list \<Rightarrow> nat list
     \<Rightarrow> error + (string \<times> real) list" where
  "rank_loop query chunks_in combined_scores results [] = Inr results"
| "rank_loop query chunks_in combined_scores results (idx # rest) =
     (if length chunks_in \<le> idx then Inl (IndexError ''list index out of range'')
      else if length combined_scores \<le> idx then Inl (IndexError ''index out of bounds'')
      else
        let chunk = chunks_in ! idx;
            score = combined_scores ! idx;
            score = (if is_definition_chunk chunk query then min (score * (13 / 10)) 1 else score)
        in rank_loop query chunks_in combined_scores
             (if score > 1 / 10 then results @ [(chunk, score)] else results) rest)"

definition search ::
  "(string list \<Rightarrow> real list list) \<Rightarrow> string \<Rightarrow> index \<Rightarrow> int
     \<Rightarrow> error + (string \<times> real) list" where
  "search encode query idx k =
     (if query = [] \<or> strip query = [] then Inl (ValueError ''Query empty'')
      else
        let q_emb = encode [query];
            q_norm = map (map (\<lambda>x. x / (norm_all q_emb + eps))) q_emb
        in (case matmul_T (embeddings idx) q_norm of
              Inl e \<Rightarrow> Inl e
            | Inr product \<Rightarrow>
               (let semantic_scores = concat product;
                    query_tokens = py_split (lower query);
                    bm25_scores = bm25 idx query_tokens
                in (case np_max bm25_scores of
                      Inl e \<Rightarrow> Inl e
                    | Inr mx \<Rightarrow>
                       (let bm25_scores =
                              (if mx > 0 then map (\<lambda>s. s / mx) bm25_scores else bm25_scores)
                        in (case np_add (map (\<lambda>s. SEMANTIC_WEIGHT * s) semantic_scores)
                                        (map (\<lambda>s. BM25_WEIGHT * s) bm25_scores) of
                              Inl e \<Rightarrow> Inl e
                            | Inr combined_scores \<Rightarrow>
                               (let top_k_idx = py_take (k * 3) (rev (argsort combined_scores))
                                in (case rank_loop query (chunks idx) combined_scores []
                                           top_k_idx of
                                      Inl e \<Rightarrow> Inl e
                                    | Inr results \<Rightarrow>
                                        Inr (py_take k
                                              (sort_key (\<lambda>x. - snd x) results))))))))))"

text \<open>
  The score of a candidate after the definition boost of the loop body, named for the
  proofs below.
\<close>

definition boosted :: "string \<Rightarrow> string \<Rightarrow> real \<Rightarrow> real" where
  "boosted query chunk score =
     (if is_definition_chunk chunk query then min (score * (13 / 10)) 1 else score)"


section \<open>A sample index\<close>

definition demo_index :: index where
  "demo_index = \<lparr>embeddings = [[1, 0], [0, 1]], bm25 = (\<lambda>_. [2, 0]),
     chunks = [''cats: small mammals'', ''dogs bark'']\<rparr>"

definition demo_encode :: "string list \<Rightarrow> real list list" where
  "demo_encode texts = map (\<lambda>_. [1, 0]) texts"





section \<open>Chunker\<close>

text \<open>The substitution of \<open>re.sub\<close>: every run of whitespace becomes one space.\<close>

function collapse_ws :: "string \<Rightarrow> string" where
  "collapse_ws [] = []"
| "collapse_ws (c # cs) =
     (if isspace c then CHR '' '' # collapse_ws (dropWhile isspace cs)
      else c # collapse_ws cs)"
  by pat_completeness auto
termination
  by (relation "measure length") (auto simp: length_dropWhile_le less_Suc_eq_le)

text \<open>
  \<open>int(chunk_size * 0.7)\<close> is a product of IEEE doubles, truncated. The double nearest
  to 0.7 is \<open>6305039478318694 / 2^53\<close>; \<open>round53\<close> rounds a non-negative integer to 53
  significant bits, ties to even, which is the rounding of the conversion of
  \<open>chunk_size\<close> and of the product. So \<open>int(90 * 0.7)\<close> is 62, not 63. The exponent
  range of doubles is not modelled: it matters only above \<open>2^1023\<close>.
\<close>

function bit_length :: "int \<Rightarrow> nat" where
  "bit_length n = (if n \<le> 0 then 0 else Suc (bit_length (n div 2)))"
  by pat_completeness auto
termination
  by (relation "measure nat") auto

definition round53 :: "int \<Rightarrow> int" where
  "round53 n =
     (let b = bit_length n
      in if b \<le> 53 then n
         else
           let sh = b - 53;
               q = n div 2 ^ sh;
               r = n mod 2 ^ sh;
               half = 2 ^ (sh - 1)
           in (if half < r \<or> (r = half \<and> odd q) then q + 1 else q) * 2 ^ sh)"

definition int_times_0_7 :: "int \<Rightarrow> int" where
  "int_times_0_7 chunk_size =
     (let m = round53 (round53 \<bar>chunk_size\<bar> * 6305039478318694) div 2 ^ 53
      in if chunk_size < 0 then - m else m)"

text \<open>\<open>xs[i]\<close>: a negative index counts from the end; out of range raises.\<close>

definition py_index :: "'a list \<Rightarrow> int \<Rightarrow> error + 'a" where
  "py_index xs i =
     (let n = int (length xs); j = (if i < 0 then n + i else i)
      in if 0 \<le> j \<and> j < n then Inr (xs ! nat j)
         else Inl (IndexError ''string index out of range''))"

text \<open>\<open>range(hi, lo, -1)\<close>: from \<open>hi\<close> down to \<open>lo + 1\<close>.\<close>

definition range_down :: "int \<Rightarrow> int \<Rightarrow> int list" where
  "range_down hi lo = map (\<lambda>i. hi - int i) [0..<nat (hi - lo)]"

text \<open>
  The backward search for a sentence end: the new end \<open>pos + 1\<close> for the first position
  holding one of \<open>.!?\<close>, or nothing.
\<close>

fun scan_back :: "string \<Rightarrow> int list \<Rightarrow> error + int option" where
  "scan_back T [] = Inr None"
| "scan_back T (pos # rest) =
     (case py_index T pos of
        Inl e \<Rightarrow> Inl e
      | Inr c \<Rightarrow> if c \<in> set ''.!?'' then Inr (Some (pos + 1)) else scan_back T rest)"

text \<open>
  One iteration of the while loop, from \<open>start\<close> and the chunks built so far to the next
  \<open>start\<close> and chunks. The loop itself may run forever, so it is a partial function:
  \<open>None\<close> is the run that never returns.
\<close>

definition chunk_step ::
  "string \<Rightarrow> int \<Rightarrow> int \<Rightarrow> int \<Rightarrow> string list \<Rightarrow> error + int \<times> string list" where
  "chunk_step T chunk_size overlap start chunks_acc =
     (let end0 = min (start + chunk_size) (int (length T))
      in (case (if end0 < int (length T)
                then scan_back T
                       (range_down end0 (max (start + int_times_0_7 chunk_size) (end0 - 50)))
                else Inr None) of
            Inl e \<Rightarrow> Inl e
          | Inr found \<Rightarrow>
             (let end1 = (case found of Some e \<Rightarrow> e | None \<Rightarrow> end0);
                  chunk = strip (py_slice T start end1);
                  chunks_new = (if chunk \<noteq> [] then chunks_acc @ [chunk] else chunks_acc)
              in Inr (if end1 < int (length T) then end1 - overlap else end1, chunks_new))))"

partial_function (option) chunk_loop ::
  "string \<Rightarrow> int \<Rightarrow> int \<Rightarrow> int \<Rightarrow> string list \<Rightarrow> (error + string list) option" where
  "chunk_loop T chunk_size overlap start chunks_acc =
     (if start < int (length T) then
        (case chunk_step T chunk_size overlap start chunks_acc of
           Inl e \<Rightarrow> Some (Inl e)
         | Inr next \<Rightarrow> chunk_loop T chunk_size overlap (fst next) (snd next))
      else Some (Inr chunks_acc))"

declare chunk_loop.simps [code]

definition chunk_text :: "string \<Rightarrow> int \<Rightarrow> int \<Rightarrow> (error + string list) option" where
  "chunk_text text chunk_size overlap =
     (if text = [] \<or> strip text = [] then Some (Inr [])
      else chunk_loop (strip (collapse_ws text)) chunk_size overlap 0 [])"

declare bit_length.simps [simp del]

text \<open>
  The least distance by which one iteration moves \<open>start\<close> forward while the end of the
  text is not reached: the window may be cut back to two characters past the lower limit
  of the backward search.
\<close>

definition min_advance :: "int \<Rightarrow> int \<Rightarrow> int" where
  "min_advance chunk_size overlap =
     min chunk_size (max (int_times_0_7 chunk_size) (chunk_size - 50) + 2) - overlap"


section \<open>Page locator\<close>

text \<open>
  A marker is the text \<open>[PAGE \<close> (with its space), one or more decimal digits and a
  closing bracket, as the regular expression of the source asks. \<open>match_marker\<close> matches
  one at the head of a string and gives the length of the match and its group of digits;
  \<open>finditer\<close> scans from left to right, resumes after each match, and gives the start
  and the digits of every match.
\<close>

definition match_marker :: "string \<Rightarrow> (nat \<times> string) option" where
  "match_marker s =
     (if prefix ''[PAGE '' s then
        (let rest = drop 6 s;
             digits = takeWhile isdigit rest;
             after = dropWhile isdigit rest
         in if digits \<noteq> [] \<and> prefix '']'' after
            then Some (6 + length digits + 1, digits)
            else None)
      else None)"

function finditer :: "nat \<Rightarrow> string \<Rightarrow> (nat \<times> string) list" where
  "finditer offset [] = []"
| "finditer offset (c # cs) =
     (case match_marker (c # cs) of
        Some (len, digits) \<Rightarrow>
          (offset, digits) # finditer (offset + len) (drop len (c # cs))
      | None \<Rightarrow> finditer (offset + 1) cs)"
  by pat_completeness auto
termination
  by (relation "measure (\<lambda>(offset, s). length s)")
     (auto simp: match_marker_def Let_def split: if_splits)

text \<open>
  \<open>int\<close> of a string of decimal digits. The interpreter refuses a string of more than
  \<open>sys.get_int_max_str_digits()\<close> digits, 4300 unless configured otherwise, with a
  ValueError; leading zeros count.
\<close>

definition digit_value :: "char \<Rightarrow> nat" where
  "digit_value c = of_char c - 48"

definition int_of_digits :: "string \<Rightarrow> int" where
  "int_of_digits ds = int (foldl (\<lambda>acc c. 10 * acc + digit_value c) 0 ds)"

definition int_max_str_digits :: nat where
  "int_max_str_digits = 4300"

definition py_int :: "string \<Rightarrow> error + int" where
  "py_int ds =
     (if int_max_str_digits < length ds
      then Inl (ValueError ''Exceeds the limit (4300 digits) for integer string conversion'')
      else Inr (int_of_digits ds))"

text \<open>
  The list comprehension \<open>[(m.start(), int(m.group(1))) for m in page_matches]\<close>: the
  first conversion that raises ends it.
\<close>

fun pages_of :: "(nat \<times> string) list \<Rightarrow> error + (nat \<times> int) list" where
  "pages_of [] = Inr []"
| "pages_of (m # ms) =
     (case py_int (snd m) of
        Inl e \<Rightarrow> Inl e
      | Inr n \<Rightarrow>
         (case pages_of ms of
            Inl e \<Rightarrow> Inl e
          | Inr ps \<Rightarrow> Inr ((fst m, n) # ps)))"

text \<open>The loop over \<open>range(len(pages) - 1)\<close>, returning at the first interval that holds \<open>pos\<close>.\<close>

fun page_loop :: "(nat \<times> int) list \<Rightarrow> int \<Rightarrow> nat list \<Rightarrow> int option" where
  "page_loop pages pos [] = None"
| "page_loop pages pos (i # rest) =
     (if int (fst (pages ! i)) \<le> pos \<and> pos < int (fst (pages ! (i + 1)))
      then Some (snd (pages ! i))
      else page_loop pages pos rest)"

text \<open>The body of the \<open>try\<close>, and the function with its \<open>except\<close> clause, which returns 1.\<close>

definition estimate_page_try :: "string \<Rightarrow> string \<Rightarrow> error + int" where
  "estimate_page_try chunk full_text =
     (case pages_of (finditer 0 full_text) of
        Inl e \<Rightarrow> Inl e
      | Inr pages \<Rightarrow>
          Inr (if pages = [] then 1
               else
                 let pos = find full_text chunk
                 in if pos < 0 then 1
                    else (case page_loop pages pos [0..<length pages - 1] of
                            Some page \<Rightarrow> page
                          | None \<Rightarrow> snd (last pages))))"

definition estimate_page :: "string \<Rightarrow> string \<Rightarrow> int" where
  "estimate_page chunk full_text =
     (case estimate_page_try chunk full_text of Inl e \<Rightarrow> 1 | Inr page \<Rightarrow> page)"

text \<open>
  The markers of a text with their numbers, whatever their length: the offsets and page
  numbers the statements below speak of.
\<close>

definition page_markers :: "string \<Rightarrow> (nat \<times> int) list" where
  "page_markers full_text =
     map (\<lambda>m. (fst m, int_of_digits (snd m))) (finditer 0 full_text)"

text \<open>A text whose first marker has 4301 digits.\<close>

definition long_marker_text :: string where
  "long_marker_text = ''ab[PAGE '' @ replicate 4301 (CHR ''1'') @ '']cd[PAGE 7]ef''"


section \<open>Properties of search\<close>

lemma dropWhile_all_iff: "(\<forall>x \<in> set (dropWhile P xs). P x) \<longleftrightarrow> (\<forall>x \<in> set xs. P x)"
proof
  assume a: "\<forall>x \<in> set (dropWhile P xs). P x"
  have "dropWhile P xs = []"
  proof (rule ccontr)
    assume "dropWhile P xs \<noteq> []"
    then have "\<not> P (hd (dropWhile P xs))" "hd (dropWhile P xs) \<in> set (dropWhile P xs)"
      by (simp_all add: hd_dropWhile)
    with a show False by blast
  qed
  then show "\<forall>x \<in> set xs. P x" by (simp add: dropWhile_eq_Nil_conv)
next
  assume "\<forall>x \<in> set xs. P x"
  then show "\<forall>x \<in> set (dropWhile P xs). P x" by (metis set_dropWhileD)
qed

lemma strip_empty_iff: "strip s = [] \<longleftrightarrow> list_all isspace s"
  by (simp add: strip_def dropWhile_eq_Nil_conv list_all_iff dropWhile_all_iff)

lemma set_py_take: "set (py_take m xs) \<subseteq> set xs"
  by (auto simp: py_take_def dest: in_set_takeD)

lemma rank_loop_not_query_empty:
  "rank_loop q cs comb acc idxs \<noteq> Inl (ValueError m)"
  by (induction idxs arbitrary: acc) (auto simp: Let_def)

lemma matmul_T_not_query_empty: "matmul_T a q \<noteq> Inl (ValueError ''Query empty'')"
  by (simp add: matmul_T_def)

lemma np_max_not_query_empty: "np_max xs \<noteq> Inl (ValueError ''Query empty'')"
  by (simp add: np_max_def)

lemma np_add_not_query_empty: "np_add a b \<noteq> Inl (ValueError ''Query empty'')"
  by (simp add: np_add_def)

lemma search_InrD:
  assumes "search encode query idx k = Inr res"
  obtains product mx combined results where
    "query \<noteq> []" "strip query \<noteq> []"
    "matmul_T (embeddings idx)
       (map (map (\<lambda>x. x / (norm_all (encode [query]) + eps))) (encode [query])) = Inr product"
    "np_max (bm25 idx (py_split (lower query))) = Inr mx"
    "np_add (map (\<lambda>s. SEMANTIC_WEIGHT * s) (concat product))
            (map (\<lambda>s. BM25_WEIGHT * s)
               (if mx > 0 then map (\<lambda>s. s / mx) (bm25 idx (py_split (lower query)))
                else bm25 idx (py_split (lower query)))) = Inr combined"
    "rank_loop query (chunks idx) combined [] (py_take (k * 3) (rev (argsort combined))) = Inr results"
    "res = py_take k (sort_key (\<lambda>x. - snd x) results)"
proof -
  from assms have q: "query \<noteq> []" "strip query \<noteq> []"
    by (auto simp: search_def split: if_splits)
  let ?qn = "map (map (\<lambda>x. x / (norm_all (encode [query]) + eps))) (encode [query])"
  let ?bm = "bm25 idx (py_split (lower query))"
  from assms q obtain product where p: "matmul_T (embeddings idx) ?qn = Inr product"
    by (cases "matmul_T (embeddings idx) ?qn") (simp_all add: search_def Let_def)
  from assms q p obtain mx where m: "np_max ?bm = Inr mx"
    by (cases "np_max ?bm") (simp_all add: search_def Let_def)
  let ?bn = "if mx > 0 then map (\<lambda>s. s / mx) ?bm else ?bm"
  let ?add = "np_add (map (\<lambda>s. SEMANTIC_WEIGHT * s) (concat product)) (map (\<lambda>s. BM25_WEIGHT * s) ?bn)"
  from assms q p m obtain combined where c: "?add = Inr combined"
    by (cases ?add) (simp_all add: search_def Let_def)
  let ?loop = "rank_loop query (chunks idx) combined [] (py_take (k * 3) (rev (argsort combined)))"
  from assms q p m c obtain results where r: "?loop = Inr results"
    by (cases ?loop) (simp_all add: search_def Let_def)
  from assms q p m c r have "res = py_take k (sort_key (\<lambda>x. - snd x) results)"
    by (simp add: search_def Let_def)
  with q p m c r show thesis using that by blast
qed

lemma rank_loop_step:
  assumes "i < length cs" "i < length comb"
  shows "rank_loop q cs comb acc (i # idxs) =
     rank_loop q cs comb
       (if 1 / 10 < boosted q (cs ! i) (comb ! i)
        then acc @ [(cs ! i, boosted q (cs ! i) (comb ! i))] else acc) idxs"
proof -
  from assms have "\<not> length cs \<le> i" "\<not> length comb \<le> i" by simp_all
  then show ?thesis
    unfolding boosted_def by (simp only: rank_loop.simps Let_def if_False)
qed

lemma rank_loop_range:
  "rank_loop q cs comb acc (i # idxs) = Inr res \<Longrightarrow> i < length cs \<and> i < length comb"
  by (simp split: if_splits)

lemma rank_loop_threshold:
  "rank_loop q cs comb acc idxs = Inr res \<Longrightarrow> \<forall>x \<in> set acc. 1 / 10 < snd x
     \<Longrightarrow> \<forall>x \<in> set res. 1 / 10 < snd x"
proof (induction idxs arbitrary: acc)
  case Nil
  then show ?case by simp
next
  case (Cons i idxs)
  let ?acc = "if 1 / 10 < boosted q (cs ! i) (comb ! i)
        then acc @ [(cs ! i, boosted q (cs ! i) (comb ! i))] else acc"
  from Cons.prems(1) have r: "i < length cs" "i < length comb"
    using rank_loop_range by blast+
  from Cons.prems(1) have "rank_loop q cs comb ?acc idxs = Inr res"
    by (simp only: rank_loop_step[OF r])
  moreover from Cons.prems(2) have "\<forall>x \<in> set ?acc. 1 / 10 < snd x"
    by (simp del: divide_less_eq_numeral1 less_divide_eq_numeral1)
  ultimately show ?case by (rule Cons.IH)
qed


lemma demo_norm: "norm_all [[1, 0]] = 1"
  by (simp add: norm_all_def)

lemma demo_is_definition: "is_definition_chunk ''cats: small mammals'' ''cats''"
  by code_simp

lemma demo_nonblank: "strip ''cats'' \<noteq> []"
  by code_simp

lemma demo_argsort: "argsort [a, 0] = (if a \<le> 0 then [0, 1] else [1, 0])"
  by (simp add: argsort_def upt_rec)

lemma demo_search:
  "search demo_encode ''cats'' demo_index 1 = Inr [(''cats: small mammals'', 1)]"
  unfolding search_def demo_index_def demo_encode_def
  by (simp add: demo_norm demo_nonblank matmul_T_def dot_def np_max_def np_add_def eps_def
      SEMANTIC_WEIGHT_def BM25_WEIGHT_def Let_def demo_argsort py_take_def py_bound_def
      demo_is_definition)

text \<open>
  C7. Whatever the query, the index and \<open>k\<close>, every result that search returns has a
  final (post-boost) score strictly above the threshold 0.1.
\<close>

theorem search_threshold:
  assumes "search encode query idx k = Inr res"
  shows "\<forall>x \<in> set res. 1 / 10 < snd x"
proof -
  from assms obtain combined results where
    r: "rank_loop query (chunks idx) combined [] (py_take (k * 3) (rev (argsort combined)))
          = Inr results"
    and res: "res = py_take k (sort_key (\<lambda>x. - snd x) results)"
    by (rule search_InrD)
  from rank_loop_threshold[OF r] have "\<forall>x \<in> set results. 1 / 10 < snd x" by simp
  moreover have "set res \<subseteq> set results" using res set_py_take by fastforce
  ultimately show ?thesis by blast
qed

theorem search_threshold_witness:
  "search demo_encode ''cats'' demo_index 1 = Inr [(''cats: small mammals'', 1)]
   \<and> (1::real) / 10 < snd (''cats: small mammals'', 1::real)"
  using search_threshold[OF demo_search] demo_search by simp

text \<open>
  C8. Search raises the error \<open>Query empty\<close> exactly when the query is empty or is
  empty after trimming, that is, when it consists of whitespace only; a query that is
  non-empty after trimming never gets this error.
\<close>

theorem search_query_empty_iff:
  "search encode query idx k = Inl (ValueError ''Query empty'')
     \<longleftrightarrow> (query = [] \<or> strip query = [])"
proof (cases "query = [] \<or> strip query = []")
  case True
  then show ?thesis by (simp add: search_def)
next
  case False
  then have "search encode query idx k \<noteq> Inl (ValueError ''Query empty'')"
    using matmul_T_not_query_empty np_max_not_query_empty
        np_add_not_query_empty rank_loop_not_query_empty
    by (auto simp: search_def Let_def split: sum.splits)
  with False show ?thesis by simp
qed

theorem search_query_empty_witness:
  "search demo_encode ''  '' demo_index 1 = Inl (ValueError ''Query empty'')
   \<and> strip ''  '' = [] \<and> strip ''cats'' \<noteq> []
   \<and> search demo_encode ''cats'' demo_index 1 \<noteq> Inl (ValueError ''Query empty'')"
proof -
  have b: "strip ''  '' = []" by code_simp
  from search_query_empty_iff[of demo_encode "''  ''" demo_index 1] b
  have "search demo_encode ''  '' demo_index 1 = Inl (ValueError ''Query empty'')" by simp
  with b demo_nonblank demo_search show ?thesis by simp
qed

lemma rank_loop_Inr_range:
  "rank_loop q cs comb acc idxs = Inr res \<Longrightarrow> \<forall>i \<in> set idxs. i < length cs \<and> i < length comb"
proof (induction idxs arbitrary: acc)
  case Nil
  then show ?case by simp
next
  case (Cons i idxs)
  from Cons.prems have r: "i < length cs" "i < length comb"
    using rank_loop_range by blast+
  from Cons.prems have "\<forall>j \<in> set idxs. j < length cs \<and> j < length comb"
    unfolding rank_loop_step[OF r] by (rule Cons.IH)
  with r show ?case by simp
qed

lemma rank_loop_eq:
  "\<forall>i \<in> set idxs. i < length cs \<and> i < length comb \<Longrightarrow>
     rank_loop q cs comb acc idxs =
       Inr (acc @ filter (\<lambda>x. 1 / 10 < snd x)
                    (map (\<lambda>i. (cs ! i, boosted q (cs ! i) (comb ! i))) idxs))"
proof (induction idxs arbitrary: acc)
  case Nil
  then show ?case by simp
next
  case (Cons i idxs)
  then have r: "i < length cs" "i < length comb" by simp_all
  from Cons.prems have rest: "\<forall>j \<in> set idxs. j < length cs \<and> j < length comb" by simp
  show ?case
    unfolding rank_loop_step[OF r] Cons.IH[OF rest]
    by (simp del: divide_less_eq_numeral1 less_divide_eq_numeral1)
qed



lemma hd_in_single: "length a = 1 \<Longrightarrow> hd a \<in> set a"
  by (cases a) simp_all

lemma zip_sum_set:
  "z \<in> set (map2 (+) a b) \<Longrightarrow> \<exists>x \<in> set a. \<exists>y \<in> set (b::real list). z = x + y"
proof -
  assume "z \<in> set (map2 (+) a b)"
  then obtain p where p: "p \<in> set (zip a b)" "z = fst p + snd p" by auto
  then have "fst p \<in> set a" "snd p \<in> set b"
    by (metis prod.collapse set_zip_leftD, metis p(1) prod.collapse set_zip_rightD)
  with p(2) show ?thesis by blast
qed

lemma np_add_cases:
  assumes "np_add a b = Inr c"
  shows "c = map2 (+) a b \<or> (hd a \<in> set a \<and> c = map (\<lambda>y. hd a + y) b)
         \<or> (hd b \<in> set b \<and> c = map (\<lambda>x. x + hd b) a)"
proof (cases "length a = length b")
  case True
  with assms show ?thesis unfolding np_add_def by simp
next
  case ne: False
  show ?thesis
  proof (cases "length a = 1")
    case True
    from assms have "c = map (\<lambda>y. hd a + y) b"
      unfolding np_add_def if_not_P[OF ne] if_P[OF True] by simp
    with hd_in_single[OF True] show ?thesis by blast
  next
    case na: False
    show ?thesis
    proof (cases "length b = 1")
      case True
      from assms have "c = map (\<lambda>x. x + hd b) a"
        unfolding np_add_def if_not_P[OF ne] if_not_P[OF na] if_P[OF True] by simp
      with hd_in_single[OF True] show ?thesis by blast
    next
      case False
      from assms show ?thesis
        unfolding np_add_def if_not_P[OF ne] if_not_P[OF na] if_not_P[OF False] by simp
    qed
  qed
qed

lemma np_add_set:
  assumes "np_add a b = Inr c" "z \<in> set c"
  shows "\<exists>x \<in> set a. \<exists>y \<in> set b. z = x + y"
proof -
  from np_add_cases[OF assms(1)] consider
    (eq) "c = map2 (+) a b" | (l) "hd a \<in> set a" "c = map (\<lambda>y. hd a + y) b"
    | (r) "hd b \<in> set b" "c = map (\<lambda>x. x + hd b) a" by blast
  then show ?thesis
  proof cases
    case eq
    with assms(2) show ?thesis using zip_sum_set by blast
  next
    case l
    from assms(2) l(2) obtain y where "y \<in> set b" "z = hd a + y" by auto
    with l(1) show ?thesis by blast
  next
    case r
    from assms(2) r(2) obtain x where "x \<in> set a" "z = x + hd b" by auto
    with r(1) show ?thesis by blast
  qed
qed

lemma boosted_le_1: "s \<le> 1 \<Longrightarrow> boosted q c s \<le> 1"
  by (simp add: boosted_def)

lemma bm25_normalised_le_1:
  assumes "np_max bm = Inr mx" "b \<in> set (if mx > 0 then map (\<lambda>s. s / mx) bm else bm)"
  shows "b \<le> 1"
proof -
  from assms(1) have mx: "mx = Max (set bm)" "bm \<noteq> []"
    by (auto simp: np_max_def split: if_splits)
  show ?thesis
  proof (cases "mx > 0")
    case True
    with assms(2) obtain s where s: "s \<in> set bm" "b = s / mx" by auto
    then have "s \<le> mx" using mx by simp
    with True s show ?thesis by (simp add: divide_le_eq_1)
  next
    case False
    with assms(2) have "b \<in> set bm" by simp
    then have "b \<le> mx" using mx by simp
    with False show ?thesis by simp
  qed
qed

lemma matmul_T_set:
  assumes "matmul_T a q = Inr product" "s \<in> set (concat product)"
  shows "\<exists>row \<in> set a. \<exists>v \<in> set q. s = dot row v"
proof -
  from assms(1) have "product = map (\<lambda>row. map (dot row) q) a"
    by (simp add: matmul_T_def split: if_splits)
  with assms(2) show ?thesis by auto
qed

text \<open>
  C1. When the dot products of the stored rows with the normalised query embedding lie in
  \<open>[-1, 1]\<close>, every score in the sequence search returns lies in \<open>[0, 1]\<close>, with the
  weights 0.7 and 0.3.
\<close>

theorem search_score_range:
  assumes ret: "search encode query idx k = Inr res"
    and dots: "\<forall>row \<in> set (embeddings idx).
        \<forall>v \<in> set (map (map (\<lambda>x. x / (norm_all (encode [query]) + eps))) (encode [query])).
          - 1 \<le> dot row v \<and> dot row v \<le> 1"
  shows "\<forall>x \<in> set res. 0 \<le> snd x \<and> snd x \<le> 1"
proof -
  let ?qn = "map (map (\<lambda>x. x / (norm_all (encode [query]) + eps))) (encode [query])"
  let ?bm = "bm25 idx (py_split (lower query))"
  from ret obtain product mx combined results where
    p: "matmul_T (embeddings idx) ?qn = Inr product"
    and m: "np_max ?bm = Inr mx"
    and c: "np_add (map (\<lambda>s. SEMANTIC_WEIGHT * s) (concat product))
            (map (\<lambda>s. BM25_WEIGHT * s) (if mx > 0 then map (\<lambda>s. s / mx) ?bm else ?bm)) = Inr combined"
    and r: "rank_loop query (chunks idx) combined [] (py_take (k * 3) (rev (argsort combined))) = Inr results"
    and res: "res = py_take k (sort_key (\<lambda>x. - snd x) results)"
    by (rule search_InrD)
  have comb_le: "z \<le> 1" if "z \<in> set combined" for z
  proof -
    from np_add_set[OF c that] obtain s b where
      s: "s \<in> set (concat product)" and b: "b \<in> set (if mx > 0 then map (\<lambda>s. s / mx) ?bm else ?bm)"
      and z: "z = SEMANTIC_WEIGHT * s + BM25_WEIGHT * b" by auto
    from matmul_T_set[OF p s] dots have "s \<le> 1" by blast
    moreover from bm25_normalised_le_1[OF m b] have "b \<le> 1" .
    ultimately show ?thesis unfolding z SEMANTIC_WEIGHT_def BM25_WEIGHT_def by simp
  qed
  let ?idxs = "py_take (k * 3) (rev (argsort combined))"
  from rank_loop_Inr_range[OF r] have rng: "\<forall>i \<in> set ?idxs. i < length (chunks idx) \<and> i < length combined" .
  from r rank_loop_eq[OF rng, of query "[]"]
  have results: "results = filter (\<lambda>x. 1 / 10 < snd x)
       (map (\<lambda>i. (chunks idx ! i, boosted query (chunks idx ! i) (combined ! i))) ?idxs)"
    by simp
  have "0 \<le> snd x \<and> snd x \<le> 1" if "x \<in> set results" for x
  proof -
    from that results obtain i where i: "i \<in> set ?idxs" 
      and x: "x = (chunks idx ! i, boosted query (chunks idx ! i) (combined ! i))"
      and t: "1 / 10 < snd x" by auto
    from i rng have "combined ! i \<in> set combined" by simp
    then have "combined ! i \<le> 1" by (rule comb_le)
    then have "snd x \<le> 1" unfolding x by (simp add: boosted_le_1)
    moreover from t have "0 \<le> snd x" by simp
    ultimately show ?thesis by simp
  qed
  moreover have "set res \<subseteq> set results" using res set_py_take by fastforce
  ultimately show ?thesis by blast
qed





theorem search_score_range_witness:
  "search demo_encode ''cats'' demo_index 1 = Inr [(''cats: small mammals'', 1)]
   \<and> 0 \<le> snd (''cats: small mammals'', 1::real) \<and> snd (''cats: small mammals'', 1::real) \<le> 1"
proof -
  have dots: "\<forall>row \<in> set (embeddings demo_index).
        \<forall>v \<in> set (map (map (\<lambda>x. x / (norm_all (demo_encode [''cats'']) + eps)))
                     (demo_encode [''cats''])).
          - 1 \<le> dot row v \<and> dot row v \<le> 1"
    by (simp add: demo_index_def demo_encode_def demo_norm dot_def eps_def)
  from search_score_range[OF demo_search dots] demo_search show ?thesis by simp
qed




section \<open>Properties of the page locator\<close>

lemma int_of_digits_nonneg: "0 \<le> int_of_digits ds"
  by (simp add: int_of_digits_def)

lemma match_marker_pos: "match_marker s = Some (len, ds) \<Longrightarrow> 0 < len"
  by (auto simp: match_marker_def Let_def split: if_splits)

lemma finditer_bounds:
  "p \<in> set (finditer offset s) \<Longrightarrow> offset \<le> fst p"
proof (induction offset s rule: finditer.induct)
  case (1 offset)
  then show ?case by simp
next
  case (2 offset c cs)
  show ?case
  proof (cases "match_marker (c # cs)")
    case None
    with 2 show ?thesis by fastforce
  next
    case (Some m)
    obtain len ds where m: "m = (len, ds)" by (cases m)
    from "2.prems" Some m
    have "p = (offset, ds) \<or> p \<in> set (finditer (offset + len) (drop len (c # cs)))"
      by simp
    then show ?thesis
    proof
      assume "p = (offset, ds)"
      then show ?thesis by simp
    next
      assume "p \<in> set (finditer (offset + len) (drop len (c # cs)))"
      from "2.IH"(2)[OF Some[unfolded m] refl this] show ?thesis by simp
    qed
  qed
qed

lemma finditer_hd_least:
  assumes "finditer offset s = p # ps" "q \<in> set ps"
  shows "fst p \<le> fst q"
  using assms
proof (induction offset s rule: finditer.induct)
  case (1 offset)
  then show ?case by simp
next
  case (2 offset c cs)
  show ?case
  proof (cases "match_marker (c # cs)")
    case None
    with 2 show ?thesis by simp
  next
    case (Some m)
    obtain len ds where m: "m = (len, ds)" by (cases m)
    from "2.prems"(1) Some m have p: "p = (offset, ds)"
      and ps: "ps = finditer (offset + len) (drop len (c # cs))" by simp_all
    from finditer_bounds[of q "offset + len" "drop len (c # cs)"] "2.prems"(2) ps
    have "offset + len \<le> fst q" by simp
    with p show ?thesis by simp
  qed
qed

lemma pages_of_Inr:
  "pages_of ms = Inr ps \<Longrightarrow> ps = map (\<lambda>m. (fst m, int_of_digits (snd m))) ms"
proof (induction ms arbitrary: ps)
  case Nil
  then show ?case by simp
next
  case (Cons m ms)
  then show ?case
    by (auto simp: py_int_def split: sum.splits if_splits)
qed

lemma pages_of_short:
  "\<forall>m \<in> set ms. length (snd m) \<le> int_max_str_digits \<Longrightarrow>
     pages_of ms = Inr (map (\<lambda>m. (fst m, int_of_digits (snd m))) ms)"
  by (induction ms) (auto simp: py_int_def)

lemma page_markers_hd_least:
  assumes "page_markers full_text = p # ps" "q \<in> set ps"
  shows "fst p \<le> fst q"
proof -
  from assms(1) obtain m ms where f: "finditer 0 full_text = m # ms"
    and p: "p = (fst m, int_of_digits (snd m))"
    and ps: "ps = map (\<lambda>m. (fst m, int_of_digits (snd m))) ms"
    unfolding page_markers_def by (cases "finditer 0 full_text") auto
  from assms(2) ps obtain m' where "m' \<in> set ms" "fst q = fst m'" by auto
  with finditer_hd_least[OF f] p show ?thesis by simp
qed

lemma page_markers_nonneg: "p \<in> set (page_markers full_text) \<Longrightarrow> 0 \<le> snd p"
  by (auto simp: page_markers_def int_of_digits_nonneg)

lemma page_loop_None:
  "\<forall>i \<in> set idxs. pos < int (fst (pages ! i)) \<Longrightarrow> page_loop pages pos idxs = None"
  by (induction idxs) auto

lemma page_loop_Some:
  "page_loop pages pos idxs = Some page \<Longrightarrow> \<exists>i \<in> set idxs. page = snd (pages ! i)"
  by (induction idxs) (auto split: if_splits)

lemma estimate_page_raised:
  "pages_of (finditer 0 full_text) = Inl e \<Longrightarrow> estimate_page chunk full_text = 1"
  by (simp add: estimate_page_def estimate_page_try_def)

lemma estimate_page_parsed:
  assumes "pages_of (finditer 0 full_text) = Inr pages"
  shows "pages = page_markers full_text"
    and "estimate_page chunk full_text =
      (if pages = [] then 1
       else if find full_text chunk < 0 then 1
       else (case page_loop pages (find full_text chunk) [0..<length pages - 1] of
               Some page \<Rightarrow> page
             | None \<Rightarrow> snd (last pages)))"
proof -
  show "pages = page_markers full_text"
    using pages_of_Inr[OF assms] by (simp add: page_markers_def)
  show "estimate_page chunk full_text =
      (if pages = [] then 1
       else if find full_text chunk < 0 then 1
       else (case page_loop pages (find full_text chunk) [0..<length pages - 1] of
               Some page \<Rightarrow> page
             | None \<Rightarrow> snd (last pages)))"
    unfolding estimate_page_def estimate_page_try_def assms by (simp add: Let_def)
qed

lemma match_marker_digits:
  assumes "ds \<noteq> []" "\<forall>c \<in> set ds. isdigit c"
  shows "match_marker (''[PAGE '' @ ds @ '']'' @ rest) = Some (length ds + 7, ds)"
proof -
  have nd: "\<not> isdigit (CHR '']'')" by (simp add: isdigit_def)
  have tw: "takeWhile isdigit (ds @ '']'' @ rest) = ds"
    using assms(2) nd by (simp add: takeWhile_append2)
  have dw: "dropWhile isdigit (ds @ '']'' @ rest) = '']'' @ rest"
    using assms(2) nd by (simp add: dropWhile_append2)
  have dr: "drop 6 (''[PAGE '' @ ds @ '']'' @ rest) = ds @ '']'' @ rest" by simp
  have pr: "prefix ''[PAGE '' (''[PAGE '' @ ds @ '']'' @ rest)" by simp
  show ?thesis
    unfolding match_marker_def Let_def if_P[OF pr] dr tw dw using assms(1) by simp
qed

lemma finditer_skip:
  "match_marker (c # cs) = None \<Longrightarrow> finditer n (c # cs) = finditer (n + 1) cs"
  by simp

lemma finditer_hit:
  "match_marker (c # cs) = Some (len, ds) \<Longrightarrow>
     finditer n (c # cs) = (n, ds) # finditer (n + len) (drop len (c # cs))"
  by simp

lemma finditer_two_markers:
  assumes "ds \<noteq> []" "\<forall>c \<in> set ds. isdigit c"
  shows "finditer 0 (''ab[PAGE '' @ ds @ '']cd[PAGE 7]ef'')
           = [(2, ds), (length ds + 11, ''7'')]"
proof -
  let ?m = "''[PAGE '' @ ds @ '']''"
  let ?rest = "''cd[PAGE 7]ef''"
  have mm: "match_marker (?m @ ?rest) = Some (length ds + 7, ds)"
    using match_marker_digits[OF assms, of ?rest] by simp
  have cons: "?m @ ?rest = CHR ''['' # (''PAGE '' @ ds @ '']'' @ ?rest)" by simp
  have a: "match_marker (CHR ''a'' # CHR ''b'' # ?m @ ?rest) = None"
    by (simp add: match_marker_def)
  have b: "match_marker (CHR ''b'' # ?m @ ?rest) = None"
    by (simp add: match_marker_def)
  have tail: "finditer n ?rest = [(n + 2, ''7'')]" for n
    by (simp add: match_marker_def Let_def isdigit_def)
  have len: "length ?m = length ds + 7" by simp
  have gen: "drop (length xs) (xs @ ys) = ys" for xs ys :: string by simp
  have dr: "drop (length ds + 7) (?m @ ?rest) = ?rest"
    using gen[of ?m ?rest] unfolding len .
  have "finditer 0 (CHR ''a'' # CHR ''b'' # ?m @ ?rest) = finditer (0 + 1) (CHR ''b'' # ?m @ ?rest)"
    by (rule finditer_skip[OF a])
  also have "\<dots> = finditer (0 + 1 + 1) (?m @ ?rest)"
    by (rule finditer_skip[OF b])
  also have "\<dots> = (0 + 1 + 1, ds)
        # finditer (0 + 1 + 1 + (length ds + 7)) (drop (length ds + 7) (?m @ ?rest))"
    using finditer_hit[OF mm[unfolded cons], of "0 + 1 + 1"] unfolding cons .
  also have "\<dots> = [(2, ds), (length ds + 11, ''7'')]"
    unfolding dr tail by simp
  finally have "finditer 0 (CHR ''a'' # CHR ''b'' # ?m @ ?rest)
                  = [(2, ds), (length ds + 11, ''7'')]" .
  moreover have "''ab[PAGE '' @ ds @ '']cd[PAGE 7]ef'' = CHR ''a'' # CHR ''b'' # ?m @ ?rest"
    by simp
  ultimately show ?thesis by (simp only:)
qed

text \<open>
  C10. A marker whose number has more than 4300 digits makes \<open>int\<close> raise, and the
  \<open>except\<close> clause returns 1: the chunk lies before the first marker, the last marker
  is page 7, and the page returned is 1.
\<close>

theorem estimate_page_long_marker:
  "page_markers long_marker_text \<noteq> []
   \<and> find long_marker_text ''ab'' = 0
   \<and> fst (hd (page_markers long_marker_text)) = 2
   \<and> snd (last (page_markers long_marker_text)) = 7
   \<and> estimate_page ''ab'' long_marker_text = 1"
proof -
  have ds: "replicate 4301 (CHR ''1'') \<noteq> []" "\<forall>c \<in> set (replicate 4301 (CHR ''1'')). isdigit c"
    by (simp_all add: isdigit_def)
  have f: "finditer 0 long_marker_text
             = [(2, replicate 4301 (CHR ''1'')), (4301 + 11, ''7'')]"
    unfolding long_marker_text_def using finditer_two_markers[OF ds] by simp
  have g: "find long_marker_text ''ab'' = 0"
    by (simp add: long_marker_text_def find_def)
  have pm: "page_markers long_marker_text
              = [(2, int_of_digits (replicate 4301 (CHR ''1''))), (4301 + 11, 7)]"
    unfolding page_markers_def f by (simp add: int_of_digits_def digit_value_def)
  have "py_int (replicate 4301 (CHR ''1''))
          = Inl (ValueError ''Exceeds the limit (4300 digits) for integer string conversion'')"
    by (simp add: py_int_def int_max_str_digits_def)
  then have "\<exists>e. pages_of (finditer 0 long_marker_text) = Inl e"
    unfolding f by simp
  then have "estimate_page ''ab'' long_marker_text = 1"
    using estimate_page_raised by blast
  with g pm show ?thesis by simp
qed

text \<open>
  C10, as the code has it: when the text has a marker, no marker number has more than
  4300 digits, and the first occurrence of the chunk starts before the first marker, no
  interval holds the position and the page of the last marker is returned.
\<close>

theorem estimate_page_before_first_marker:
  assumes pages: "page_markers full_text = pages" "pages \<noteq> []"
    and short: "\<forall>m \<in> set (finditer 0 full_text). length (snd m) \<le> int_max_str_digits"
    and pos: "0 \<le> find full_text chunk" "find full_text chunk < int (fst (hd pages))"
  shows "estimate_page chunk full_text = snd (last pages)"
proof -
  from pages_of_short[OF short] pages(1)
  have parsed: "pages_of (finditer 0 full_text) = Inr pages" by (simp add: page_markers_def)
  obtain p ps where pp: "pages = p # ps" using pages(2) by (cases pages) auto
  have "find full_text chunk < int (fst (pages ! i))" if "i < length pages" for i
  proof (cases i)
    case 0
    with pos(2) pp show ?thesis by simp
  next
    case (Suc j)
    with that pp have "pages ! i \<in> set ps" by simp
    from page_markers_hd_least[OF pages(1)[unfolded pp] this] pos(2) pp show ?thesis by simp
  qed
  then have "\<forall>i \<in> set [0..<length pages - 1]. find full_text chunk < int (fst (pages ! i))"
    by simp
  then have "page_loop pages (find full_text chunk) [0..<length pages - 1] = None"
    by (rule page_loop_None)
  with estimate_page_parsed(2)[OF parsed, of chunk] pages(2) pos(1) show ?thesis by simp
qed

theorem estimate_page_before_first_marker_witness:
  "page_markers ''ab[PAGE 3]cd[PAGE 7]ef'' = [(2, 3), (12, 7)]
   \<and> finditer 0 ''ab[PAGE 3]cd[PAGE 7]ef'' = [(2, ''3''), (12, ''7'')]
   \<and> find ''ab[PAGE 3]cd[PAGE 7]ef'' ''ab'' = 0
   \<and> estimate_page ''ab'' ''ab[PAGE 3]cd[PAGE 7]ef'' = 7"
proof -
  have f: "finditer 0 ''ab[PAGE 3]cd[PAGE 7]ef'' = [(2, ''3''), (12, ''7'')]" by code_simp
  have p: "page_markers ''ab[PAGE 3]cd[PAGE 7]ef'' = [(2, 3), (12, 7)]" by code_simp
  have g: "find ''ab[PAGE 3]cd[PAGE 7]ef'' ''ab'' = 0" by code_simp
  have s: "\<forall>m \<in> set (finditer 0 ''ab[PAGE 3]cd[PAGE 7]ef''). length (snd m) \<le> int_max_str_digits"
    unfolding f by (simp add: int_max_str_digits_def)
  from estimate_page_before_first_marker[where chunk = "''ab''", OF p _ s] f p g
  show ?thesis by simp
qed

text \<open>
  C6. A marker may carry the number 0, and then the page returned is below 1.
\<close>

theorem estimate_page_zero_marker: "\<not> 1 \<le> estimate_page ''abc'' ''[PAGE 0]abc''"
  by code_simp

text \<open>
  C6, as the code has it: the page returned is 1 or the number of one of the markers, so it
  is never negative, and it is at least 1 when every marker number is; it is 1 when there
  is no marker and when the chunk does not occur in the text.
\<close>

theorem estimate_page_result:
  "(estimate_page chunk full_text = 1
      \<or> estimate_page chunk full_text \<in> snd ` set (page_markers full_text))
   \<and> 0 \<le> estimate_page chunk full_text
   \<and> (page_markers full_text = [] \<longrightarrow> estimate_page chunk full_text = 1)
   \<and> (find full_text chunk < 0 \<longrightarrow> estimate_page chunk full_text = 1)
   \<and> ((\<forall>p \<in> set (page_markers full_text). 1 \<le> snd p) \<longrightarrow> 1 \<le> estimate_page chunk full_text)"
proof (cases "pages_of (finditer 0 full_text)")
  case (Inl e)
  then have "estimate_page chunk full_text = 1" by (rule estimate_page_raised)
  then show ?thesis by simp
next
  case (Inr parsed)
  let ?pages = "page_markers full_text"
  let ?pos = "find full_text chunk"
  have est: "estimate_page chunk full_text =
      (if ?pages = [] then 1
       else if ?pos < 0 then 1
       else (case page_loop ?pages ?pos [0..<length ?pages - 1] of
               Some page \<Rightarrow> page
             | None \<Rightarrow> snd (last ?pages)))" 
    using estimate_page_parsed(2)[OF Inr, of chunk]
    unfolding estimate_page_parsed(1)[OF Inr] .
  have none: "?pages = [] \<Longrightarrow> estimate_page chunk full_text = 1"
    by (simp add: est)
  have neg: "?pos < 0 \<Longrightarrow> estimate_page chunk full_text = 1"
    by (simp add: est)
  have mem: "estimate_page chunk full_text = 1 \<or> estimate_page chunk full_text \<in> snd ` set ?pages"
  proof (cases "?pages = [] \<or> ?pos < 0")
    case True
    with none neg show ?thesis by blast
  next
    case False
    show ?thesis
    proof (cases "page_loop ?pages ?pos [0..<length ?pages - 1]")
      case None
      with False have "estimate_page chunk full_text = snd (last ?pages)"
        by (simp add: est)
      moreover from False have "last ?pages \<in> set ?pages" by simp
      ultimately show ?thesis by simp
    next
      case (Some page)
      with False have e: "estimate_page chunk full_text = page"
        by (simp add: est)
      from page_loop_Some[OF Some] obtain i where
        "i \<in> set [0..<length ?pages - 1]" "page = snd (?pages ! i)" by blast
      then have "page \<in> snd ` set ?pages" by simp
      with e show ?thesis by simp
    qed
  qed
  have nonneg: "0 \<le> estimate_page chunk full_text"
    using mem page_markers_nonneg[of _ full_text] by auto
  have ge1: "1 \<le> estimate_page chunk full_text" if "\<forall>p \<in> set ?pages. 1 \<le> snd p"
    using mem that by auto
  from mem nonneg none neg ge1 show ?thesis by blast
qed

theorem estimate_page_result_witness:
  "estimate_page ''Beta text.'' ''[PAGE 1] Alpha text. [PAGE 2] Beta text.'' = 2
   \<and> page_markers ''[PAGE 1] Alpha text. [PAGE 2] Beta text.'' = [(0, 1), (21, 2)]
   \<and> estimate_page ''Gamma'' ''[PAGE 1] Alpha text. [PAGE 2] Beta text.'' = 1
   \<and> estimate_page ''Beta'' ''Alpha Beta'' = 1"
proof -
  have f: "page_markers ''[PAGE 1] Alpha text. [PAGE 2] Beta text.'' = [(0, 1), (21, 2)]"
    by code_simp
  have e: "estimate_page ''Beta text.'' ''[PAGE 1] Alpha text. [PAGE 2] Beta text.'' = 2"
    by code_simp
  have g: "find ''[PAGE 1] Alpha text. [PAGE 2] Beta text.'' ''Gamma'' < 0" by code_simp
  have h: "page_markers ''Alpha Beta'' = []" by code_simp
  from estimate_page_result[of "''Gamma''" "''[PAGE 1] Alpha text. [PAGE 2] Beta text.''"] g
  have 1: "estimate_page ''Gamma'' ''[PAGE 1] Alpha text. [PAGE 2] Beta text.'' = 1" by blast
  from estimate_page_result[of "''Beta''" "''Alpha Beta''"] h
  have 2: "estimate_page ''Beta'' ''Alpha Beta'' = 1" by blast
  from estimate_page_result[of "''Beta text.''" "''[PAGE 1] Alpha text. [PAGE 2] Beta text.''"] f
  have "1 \<le> estimate_page ''Beta text.'' ''[PAGE 1] Alpha text. [PAGE 2] Beta text.''" by simp
  with e f 1 2 show ?thesis by simp
qed

section \<open>Properties of the chunker\<close>

lemma round53_nonneg: "0 \<le> n \<Longrightarrow> 0 \<le> round53 n"
  by (simp add: round53_def Let_def pos_imp_zdiv_nonneg_iff)

lemma int_times_0_7_nonneg: "0 \<le> chunk_size \<Longrightarrow> 0 \<le> int_times_0_7 chunk_size"
  by (simp add: int_times_0_7_def Let_def round53_nonneg pos_imp_zdiv_nonneg_iff)

lemma set_range_down: "set (range_down hi lo) = {lo<..hi}"
proof
  show "set (range_down hi lo) \<subseteq> {lo<..hi}"
    by (auto simp: range_down_def)
  show "{lo<..hi} \<subseteq> set (range_down hi lo)"
  proof
    fix p assume "p \<in> {lo<..hi}"
    then have "p = hi - int (nat (hi - p))" "nat (hi - p) < nat (hi - lo)" by auto
    then show "p \<in> set (range_down hi lo)"
      unfolding range_down_def by (metis atLeast0LessThan imageI lessThan_iff set_map set_upt)
  qed
qed

lemma scan_back_Some: "scan_back T ps = Inr (Some e) \<Longrightarrow> e - 1 \<in> set ps"
  by (induction ps) (auto split: sum.splits if_splits)

lemma py_index_ok: "0 \<le> i \<Longrightarrow> i < int (length xs) \<Longrightarrow> py_index xs i = Inr (xs ! nat i)"
  by (simp add: py_index_def)

lemma scan_back_ok:
  "\<forall>p \<in> set ps. 0 \<le> p \<and> p < int (length T) \<Longrightarrow> \<exists>r. scan_back T ps = Inr r"
proof (induction ps)
  case Nil
  then show ?case by simp
next
  case (Cons p ps)
  then have "py_index T p = Inr (T ! nat p)" by (simp add: py_index_ok)
  with Cons show ?case by simp
qed

lemma length_strip_le: "length (strip s) \<le> length s"
  unfolding strip_def
  by (metis length_dropWhile_le length_rev order_trans)

lemma length_py_slice: "i \<le> j \<Longrightarrow> int (length (py_slice xs i j)) \<le> j - i"
  by (auto simp: py_slice_def py_bound_def)


lemma chunk_step_InrD:
  assumes "chunk_step T cs ov st acc = Inr (st', acc')"
  obtains end1 where
    "st' = (if end1 < int (length T) then end1 - ov else end1)"
    "acc' = (if strip (py_slice T st end1) \<noteq> [] then acc @ [strip (py_slice T st end1)] else acc)"
    "end1 = min (st + cs) (int (length T))
       \<or> (st + cs < int (length T)
           \<and> max (st + int_times_0_7 cs) (st + cs - 50) + 2 \<le> end1 \<and> end1 \<le> st + cs + 1)"
proof -
  define end0 where "end0 = min (st + cs) (int (length T))"
  define sc where "sc = (if end0 < int (length T)
       then scan_back T (range_down end0 (max (st + int_times_0_7 cs) (end0 - 50)))
       else Inr None)"
  from assms obtain found where f: "sc = Inr found"
    unfolding chunk_step_def Let_def sc_def end0_def by (auto split: sum.splits)
  define end1 where "end1 = (case found of Some e \<Rightarrow> e | None \<Rightarrow> end0)"
  from assms f have r: "Inr (st', acc') =
      (Inr (if end1 < int (length T) then end1 - ov else end1,
           if strip (py_slice T st end1) \<noteq> [] then acc @ [strip (py_slice T st end1)] else acc)
       :: error + int \<times> string list)"
    unfolding chunk_step_def Let_def sc_def[symmetric] end0_def[symmetric] end1_def by simp
  have e: "end1 = end0 \<or> (st + cs < int (length T)
           \<and> max (st + int_times_0_7 cs) (st + cs - 50) + 2 \<le> end1 \<and> end1 \<le> st + cs + 1)"
  proof (cases found)
    case None
    then show ?thesis by (simp add: end1_def)
  next
    case (Some e)
    with f have lt: "end0 < int (length T)"
      and sb: "scan_back T (range_down end0 (max (st + int_times_0_7 cs) (end0 - 50))) = Inr (Some e)"
      unfolding sc_def by (auto split: if_splits)
    from lt have e0: "end0 = st + cs" "st + cs < int (length T)" unfolding end0_def by auto
    from scan_back_Some[OF sb] have "e - 1 \<in> {max (st + int_times_0_7 cs) (end0 - 50)<..end0}"
      by (simp only: set_range_down)
    with e0 Some show ?thesis by (auto simp: end1_def)
  qed
  from r e show thesis using that[of end1] unfolding end0_def by simp
qed

lemma chunk_step_lengths:
  assumes step: "chunk_step T cs ov st acc = Inr (st', acc')"
    and cs: "0 < cs" and st: "st < int (length T)"
    and acc: "\<forall>c \<in> set acc. int (length c) \<le> cs + 1"
  shows "\<forall>c \<in> set acc'. int (length c) \<le> cs + 1"
proof -
  from step obtain end1 where
    acc': "acc' = (if strip (py_slice T st end1) \<noteq> [] then acc @ [strip (py_slice T st end1)] else acc)"
    and e: "end1 = min (st + cs) (int (length T))
       \<or> (st + cs < int (length T)
           \<and> max (st + int_times_0_7 cs) (st + cs - 50) + 2 \<le> end1 \<and> end1 \<le> st + cs + 1)"
    by (rule chunk_step_InrD)
  from int_times_0_7_nonneg[of cs] cs have "0 \<le> int_times_0_7 cs" by simp
  with e cs st have b: "st \<le> end1" "end1 \<le> st + cs + 1" by auto
  have "int (length (strip (py_slice T st end1))) \<le> int (length (py_slice T st end1))"
    using length_strip_le by simp
  also have "\<dots> \<le> end1 - st" using b(1) by (rule length_py_slice)
  also have "\<dots> \<le> cs + 1" using b(2) by simp
  finally show ?thesis using acc acc' by auto
qed

lemma chunk_loop_lengths:
  assumes ret: "chunk_loop T0 cs0 ov0 st0 acc0 = Some (Inr out)"
    and cs0: "0 < cs0" and acc0: "\<forall>c \<in> set acc0. int (length c) \<le> cs0 + 1"
  shows "\<forall>c \<in> set out. int (length c) \<le> cs0 + 1"
proof -
  have "0 < cs0 \<longrightarrow> (\<forall>c \<in> set acc0. int (length c) \<le> cs0 + 1) \<longrightarrow>
       (\<forall>res. (Inr out :: error + string list) = Inr res \<longrightarrow>
          (\<forall>c \<in> set res. int (length c) \<le> cs0 + 1))"
  proof (rule chunk_loop.raw_induct[OF _ ret, where P = "\<lambda>T cs ov st acc y.
       0 < cs \<longrightarrow> (\<forall>c \<in> set acc. int (length c) \<le> cs + 1) \<longrightarrow>
       (\<forall>out. y = Inr out \<longrightarrow> (\<forall>c \<in> set out. int (length c) \<le> cs + 1))"])
    fix loop :: "string \<Rightarrow> int \<Rightarrow> int \<Rightarrow> int \<Rightarrow> string list \<Rightarrow> (error + string list) option"
    fix T cs ov st acc y
    assume IH: "\<And>T cs ov st acc y. loop T cs ov st acc = Some y \<Longrightarrow>
       0 < cs \<longrightarrow> (\<forall>c \<in> set acc. int (length c) \<le> cs + 1) \<longrightarrow>
       (\<forall>out. y = Inr out \<longrightarrow> (\<forall>c \<in> set out. int (length c) \<le> cs + 1))"
    assume body: "(if st < int (length T)
         then case chunk_step T cs ov st acc of Inl e \<Rightarrow> Some (Inl e)
              | Inr next \<Rightarrow> loop T cs ov (fst next) (snd next)
         else Some (Inr acc)) = Some y"
    show "0 < cs \<longrightarrow> (\<forall>c \<in> set acc. int (length c) \<le> cs + 1) \<longrightarrow>
       (\<forall>out. y = Inr out \<longrightarrow> (\<forall>c \<in> set out. int (length c) \<le> cs + 1))"
    proof (intro impI allI)
      fix out
      assume cs: "0 < cs" and acc: "\<forall>c \<in> set acc. int (length c) \<le> cs + 1"
        and y: "y = Inr out"
      show "\<forall>c \<in> set out. int (length c) \<le> cs + 1"
      proof (cases "st < int (length T)")
        case False
        with body y acc show ?thesis by simp
      next
        case True
        show ?thesis
        proof (cases "chunk_step T cs ov st acc")
          case (Inl e)
          with True body y show ?thesis by simp
        next
          case (Inr nxt)
          then have step: "chunk_step T cs ov st acc = Inr (fst nxt, snd nxt)" by simp
          from True Inr body have "loop T cs ov (fst nxt) (snd nxt) = Some y" by simp
          from IH[OF this] cs chunk_step_lengths[OF step cs True acc] y show ?thesis by blast
        qed
      qed
    qed
  qed
  with cs0 acc0 show ?thesis by blast
qed


lemma loop_text_step:
  "chunk_step ''aaaaaaaa.aaa'' 10 9 0 acc = Inr (0, acc @ [''aaaaaaaa.''])"
proof -
  have a: "int_times_0_7 10 = 7" by code_simp
  have b: "range_down 10 7 = [10, 9, 8]" by code_simp
  have c: "scan_back ''aaaaaaaa.aaa'' [10, 9, 8] = Inr (Some 9)" by code_simp
  have d: "strip (py_slice ''aaaaaaaa.aaa'' 0 9) = ''aaaaaaaa.''" by code_simp
  show ?thesis
    unfolding chunk_step_def Let_def by (simp add: a b c d del: scan_back.simps)
qed

lemma chunk_loop_never_returns:
  "chunk_loop ''aaaaaaaa.aaa'' 10 9 0 acc = None"
proof (rule ccontr)
  assume "chunk_loop ''aaaaaaaa.aaa'' 10 9 0 acc \<noteq> None"
  then obtain y where ret: "chunk_loop ''aaaaaaaa.aaa'' 10 9 0 acc = Some y" by auto
  have "\<not> (''aaaaaaaa.aaa'' = ''aaaaaaaa.aaa'' \<and> (10::int) = 10 \<and> (9::int) = 9 \<and> (0::int) = 0)"
  proof (rule chunk_loop.raw_induct[OF _ ret, where P = "\<lambda>T cs ov st acc y.
       \<not> (T = ''aaaaaaaa.aaa'' \<and> cs = 10 \<and> ov = 9 \<and> st = 0)"])
    fix loop :: "string \<Rightarrow> int \<Rightarrow> int \<Rightarrow> int \<Rightarrow> string list \<Rightarrow> (error + string list) option"
    fix T cs ov st acc y
    assume IH: "\<And>T cs ov st acc y. loop T cs ov st acc = Some y \<Longrightarrow>
       \<not> (T = ''aaaaaaaa.aaa'' \<and> cs = 10 \<and> ov = 9 \<and> st = 0)"
    assume body: "(if st < int (length T)
         then case chunk_step T cs ov st acc of Inl e \<Rightarrow> Some (Inl e)
              | Inr next \<Rightarrow> loop T cs ov (fst next) (snd next)
         else Some (Inr acc)) = Some y"
    show "\<not> (T = ''aaaaaaaa.aaa'' \<and> cs = 10 \<and> ov = 9 \<and> st = 0)"
    proof
      assume eq: "T = ''aaaaaaaa.aaa'' \<and> cs = 10 \<and> ov = 9 \<and> st = 0"
      with body have "loop ''aaaaaaaa.aaa'' 10 9 0 (acc @ [''aaaaaaaa.'']) = Some y"
        by (simp add: loop_text_step)
      from IH[OF this] show False by simp
    qed
  qed
  then show False by simp
qed

text \<open>
  C2. The loop does not always terminate: with size 10 and overlap 9 the sentence end at
  index 8 pulls the window end back to 9, the next start is 0 again, and the same chunk is
  produced for ever.
\<close>

theorem chunk_text_diverges: "chunk_text ''aaaaaaaa.aaa'' 10 9 = None"
proof -
  have n: "strip (collapse_ws ''aaaaaaaa.aaa'') = ''aaaaaaaa.aaa''" by code_simp
  have b: "strip ''aaaaaaaa.aaa'' \<noteq> []" by code_simp
  show ?thesis
    unfolding chunk_text_def n using b by (simp add: chunk_loop_never_returns)
qed

text \<open>
  C9. For a positive size, every chunk that \<open>chunk_text\<close> returns has at most
  \<open>size + 1\<close> characters, and a chunk of \<open>size + 1\<close> characters occurs: the backward
  search starts at the index of the tentative end itself.
\<close>

theorem chunk_length_bound:
  "(chunk_text text chunk_size overlap = Some (Inr out) \<longrightarrow> 0 < chunk_size \<longrightarrow>
      (\<forall>c \<in> set out. int (length c) \<le> chunk_size + 1))
   \<and> chunk_text ''aaa.bbb'' 3 0 = Some (Inr [''aaa.'', ''bbb''])"
proof -
  have r: "chunk_text ''aaa.bbb'' 3 0 = Some (Inr [''aaa.'', ''bbb''])" by code_simp
  have "\<forall>c \<in> set out. int (length c) \<le> chunk_size + 1"
    if ret: "chunk_text text chunk_size overlap = Some (Inr out)" and cs: "0 < chunk_size"
  proof (cases "text = [] \<or> strip text = []")
    case True
    with ret show ?thesis by (simp add: chunk_text_def)
  next
    case False
    with ret have "chunk_loop (strip (collapse_ws text)) chunk_size overlap 0 [] = Some (Inr out)"
      by (simp add: chunk_text_def)
    from chunk_loop_lengths[OF this cs] show ?thesis by simp
  qed
  with r show ?thesis by blast
qed

theorem chunk_length_bound_witness:
  "chunk_text ''aaa.bbb'' 3 0 = Some (Inr [''aaa.'', ''bbb''])
   \<and> int (length ''aaa.'') = 3 + 1 \<and> int (length ''bbb'') \<le> 3 + 1"
  using chunk_length_bound[of "''aaa.bbb''" 3 0 "[''aaa.'', ''bbb'']"] by simp

lemma chunk_step_progress:
  assumes st: "0 \<le> st" "st < int (length T)" and cs: "0 < cs" and ov: "0 \<le> ov"
    and d: "0 < min_advance cs ov"
  shows "\<exists>st' acc'. chunk_step T cs ov st acc = Inr (st', acc')
           \<and> length acc' \<le> length acc + 1
           \<and> (st' = int (length T) \<or> (st + min_advance cs ov \<le> st' \<and> st' < int (length T)))"
proof -
  define n where "n = int (length T)"
  define end0 where "end0 = min (st + cs) n"
  define lo where "lo = max (st + int_times_0_7 cs) (end0 - 50)"
  have nn: "0 \<le> int_times_0_7 cs" using int_times_0_7_nonneg[of cs] cs by simp
  have "\<exists>r. (if end0 < n then scan_back T (range_down end0 lo) else Inr None) = Inr r"
  proof (cases "end0 < n")
    case True
    have "\<forall>p \<in> set (range_down end0 lo). 0 \<le> p \<and> p < int (length T)"
      unfolding set_range_down using True nn st(1) by (auto simp: lo_def n_def)
    from scan_back_ok[OF this] True show ?thesis by simp
  next
    case False
    then show ?thesis by simp
  qed
  then obtain r where r: "(if end0 < n then scan_back T (range_down end0 lo) else Inr None) = Inr r"
    by blast
  then obtain nxt where "chunk_step T cs ov st acc = Inr nxt"
    unfolding chunk_step_def Let_def n_def[symmetric] end0_def[symmetric] lo_def[symmetric]
    by simp
  then have step: "chunk_step T cs ov st acc = Inr (fst nxt, snd nxt)" by simp
  from step obtain end1 where
    s': "fst nxt = (if end1 < int (length T) then end1 - ov else end1)"
    and a': "snd nxt = (if strip (py_slice T st end1) \<noteq> [] then acc @ [strip (py_slice T st end1)] else acc)"
    and e: "end1 = min (st + cs) (int (length T))
       \<or> (st + cs < int (length T)
           \<and> max (st + int_times_0_7 cs) (st + cs - 50) + 2 \<le> end1 \<and> end1 \<le> st + cs + 1)"
    by (rule chunk_step_InrD)
  from a' have len: "length (snd nxt) \<le> length acc + 1" by simp
  have "fst nxt = int (length T) \<or> (st + min_advance cs ov \<le> fst nxt \<and> fst nxt < int (length T))"
    using e s' st cs ov d unfolding min_advance_def by (auto split: if_splits)
  with step len show ?thesis by blast
qed

lemma ceil_div_step:
  fixes m m' D :: nat
  assumes "0 < D" "m' + D \<le> m"
  shows "(m' + D - 1) div D + 1 \<le> (m + D - 1) div D"
proof -
  define a where "a = m' + D - 1"
  have "a div D + 1 = (a + D) div D" using assms(1) by simp
  also have "a + D \<le> m + D - 1" using assms unfolding a_def by linarith
  then have "(a + D) div D \<le> (m + D - 1) div D" by (rule div_le_mono)
  finally show ?thesis unfolding a_def .
qed

lemma chunk_loop_terminates:
  assumes cs: "0 < cs" and ov: "0 \<le> ov" and d: "0 < min_advance cs ov"
  shows "0 \<le> st \<Longrightarrow> st \<le> int (length T) \<Longrightarrow>
     \<exists>out. chunk_loop T cs ov st acc = Some (Inr out)
       \<and> length out \<le> length acc
            + (nat (int (length T) - st) + nat (min_advance cs ov) - 1) div nat (min_advance cs ov)"
proof (induction "nat (int (length T) - st)" arbitrary: st acc rule: less_induct)
  case less
  let ?n = "int (length T)"
  let ?D = "nat (min_advance cs ov)"
  from d have D: "0 < ?D" by simp
  show ?case
  proof (cases "st < ?n")
    case False
    then have "chunk_loop T cs ov st acc = Some (Inr acc)"
      by (subst chunk_loop.simps) simp
    then show ?thesis by simp
  next
    case True
    from chunk_step_progress[OF less.prems(1) True cs ov d, of acc] obtain st' acc' where
      step: "chunk_step T cs ov st acc = Inr (st', acc')"
      and len: "length acc' \<le> length acc + 1"
      and nxt: "st' = ?n \<or> (st + min_advance cs ov \<le> st' \<and> st' < ?n)" by blast
    have unf: "chunk_loop T cs ov st acc = chunk_loop T cs ov st' acc'"
      by (subst chunk_loop.simps) (simp add: True step)
    from True D have one: "1 \<le> (nat (?n - st) + ?D - 1) div ?D"
      by (simp add: Suc_le_eq div_greater_zero_iff)
    from nxt show ?thesis
    proof
      assume "st' = ?n"
      then have "chunk_loop T cs ov st' acc' = Some (Inr acc')"
        by (subst chunk_loop.simps) simp
      with unf len one show ?thesis by simp
    next
      assume adv: "st + min_advance cs ov \<le> st' \<and> st' < ?n"
      with d less.prems have m: "nat (?n - st') < nat (?n - st)" "0 \<le> st'" "st' \<le> ?n" by auto
      from less.hyps[OF m, of acc'] obtain out where
        out: "chunk_loop T cs ov st' acc' = Some (Inr out)"
        and lo: "length out \<le> length acc' + (nat (?n - st') + ?D - 1) div ?D" by blast
      from adv d have "nat (?n - st') + ?D \<le> nat (?n - st)" by auto
      from ceil_div_step[OF D this] lo len
      have "length out \<le> length acc + (nat (?n - st) + ?D - 1) div ?D" by linarith
      with unf out show ?thesis by simp
    qed
  qed
qed


text \<open>
  C5. The number of chunks can exceed \<open>len(T) / (size - overlap) + 1\<close>: a sentence end
  shortens a window, so more windows are needed. Twenty characters at size 7 and overlap 0
  give four chunks.
\<close>

theorem chunk_count_exceeds:
  "chunk_text ''aaaaa.aaaaa.aaaaa.aa'' 7 0 = Some (Inr [''aaaaa.'', ''aaaaa.'', ''aaaaa.'', ''aa''])
   \<and> \<not> real (length [''aaaaa.'', ''aaaaa.'', ''aaaaa.'', ''aa''])
         \<le> real (length (strip (collapse_ws ''aaaaa.aaaaa.aaaaa.aa''))) / real_of_int (7 - 0) + 1"
proof -
  have r: "chunk_text ''aaaaa.aaaaa.aaaaa.aa'' 7 0
             = Some (Inr [''aaaaa.'', ''aaaaa.'', ''aaaaa.'', ''aa''])" by code_simp
  have n: "strip (collapse_ws ''aaaaa.aaaaa.aaaaa.aa'') = ''aaaaa.aaaaa.aaaaa.aa''" by code_simp
  show ?thesis unfolding n using r by simp
qed

text \<open>
  C5, as the code has it: when the least advance \<open>min_advance size overlap\<close> is
  positive, \<open>chunk_text\<close> returns, and the number of chunks is at most the length of the
  normalised text divided by that advance, plus one.
\<close>

theorem chunk_count_bound:
  assumes cs: "0 < chunk_size" and ov: "0 \<le> overlap"
    and d: "0 < min_advance chunk_size overlap"
  shows "\<exists>out. chunk_text text chunk_size overlap = Some (Inr out)
           \<and> real (length out)
               \<le> real (length (strip (collapse_ws text)))
                    / real_of_int (min_advance chunk_size overlap) + 1"
proof (cases "text = [] \<or> strip text = []")
  case True
  then have "chunk_text text chunk_size overlap = Some (Inr [])" by (simp add: chunk_text_def)
  moreover have "0 \<le> real (length (strip (collapse_ws text)))
                    / real_of_int (min_advance chunk_size overlap) + 1"
    using d by simp
  ultimately show ?thesis by simp
next
  case False
  let ?T = "strip (collapse_ws text)"
  let ?D = "nat (min_advance chunk_size overlap)"
  from d have D: "0 < ?D" by simp
  from chunk_loop_terminates[OF cs ov d, of 0 ?T "[]"] obtain out where
    out: "chunk_loop ?T chunk_size overlap 0 [] = Some (Inr out)"
    and len: "length out \<le> (length ?T + ?D - 1) div ?D" by auto
  have "(length ?T + ?D - 1) div ?D \<le> length ?T div ?D + 1"
  proof -
    have "length ?T + ?D - 1 \<le> length ?T + ?D" by simp
    then have "(length ?T + ?D - 1) div ?D \<le> (length ?T + ?D) div ?D" by (rule div_le_mono)
    also have "\<dots> = length ?T div ?D + 1" using D by simp
    finally show ?thesis .
  qed
  with len have "real (length out) \<le> real (length ?T div ?D) + 1" by linarith
  also have "real (length ?T div ?D) \<le> real (length ?T) / real ?D"
    by (rule of_nat_div_le_of_nat)
  also have "real ?D = real_of_int (min_advance chunk_size overlap)" using d by simp
  finally have "real (length out) \<le> real (length ?T) / real_of_int (min_advance chunk_size overlap) + 1"
    by simp
  with out False show ?thesis by (simp add: chunk_text_def)
qed

theorem chunk_count_bound_witness:
  "(0::int) < 7 \<and> (0::int) \<le> 0 \<and> min_advance 7 0 = 6 \<and> min_advance 500 150 = 302
   \<and> chunk_text ''aaaaa.aaaaa.aaaaa.aa'' 7 0 = Some (Inr [''aaaaa.'', ''aaaaa.'', ''aaaaa.'', ''aa''])
   \<and> real (length [''aaaaa.'', ''aaaaa.'', ''aaaaa.'', ''aa'']) \<le> 20 / 6 + 1"
proof -
  have m: "min_advance 7 0 = 6" by code_simp
  have m': "min_advance 500 150 = 302" by code_simp
  have r: "chunk_text ''aaaaa.aaaaa.aaaaa.aa'' 7 0
             = Some (Inr [''aaaaa.'', ''aaaaa.'', ''aaaaa.'', ''aa''])" by code_simp
  have n: "strip (collapse_ws ''aaaaa.aaaaa.aaaaa.aa'') = ''aaaaa.aaaaa.aaaaa.aa''" by code_simp
  have d: "0 < min_advance 7 0" unfolding m by simp
  from chunk_count_bound[OF _ _ d, of "''aaaaa.aaaaa.aaaaa.aa''"]
  have "real (length [''aaaaa.'', ''aaaaa.'', ''aaaaa.'', ''aa'']) \<le> 20 / 6 + 1"
    unfolding r n m by simp
  with m m' r show ?thesis by simp
qed

end
